theory Spec2Isabelle
  imports Main "HOL-Library.Word"
begin

unbundle bit_operations_syntax

section \<open>Package hashmap (pkg/hashmap/hashmap.go)\<close>

text \<open>
  Keys are Go byte slices. A \<^verbatim>\<open>[]byte\<close> may be \<^verbatim>\<open>nil\<close>, which the cache tests for,
  so a key is an optional byte list: \<open>None\<close> is the nil slice, \<open>Some bs\<close> a non-nil slice.
  Writing a nil slice to the hash writes no bytes, as writing an empty one does.
\<close>

type_synonym byte = "8 word"
type_synonym key = "byte list option"

definition key_bytes :: "key \<Rightarrow> byte list" where
  "key_bytes k = (case k of None \<Rightarrow> [] | Some bs \<Rightarrow> bs)"

text \<open>\<^verbatim>\<open>type entry[V any] struct { HashKey uint64; Key []byte; Value V }\<close>\<close>

record 'v entry =
  HashKey :: "64 word"
  Key :: key
  EValue :: 'v

text \<open>
  \<^verbatim>\<open>type HashMap[V any] struct { data [DefaultTableSize][]*entry[V]; hash maphash.Hash }\<close>

  The array \<open>data\<close> is indexed by bucket number; only the indexes below
  \<open>DefaultTableSize\<close> are ever read or written. Each bucket is the sequence of its
  entries. The field \<open>hash\<close> is the seeded \<^verbatim>\<open>maphash.Hash\<close>: every method resets it and
  writes the key before it reads \<^verbatim>\<open>Sum64()\<close>, so all that is observable of it is the
  function from the bytes written to the 64-bit sum, which the seed fixes for the lifetime
  of the map. The library's hash function is not part of the repository: it is this field,
  a parameter of every statement below.
\<close>

definition DefaultTableSize :: nat where
  "DefaultTableSize = 10"

record 'v HashMap =
  data :: "nat \<Rightarrow> 'v entry list"
  hash :: "byte list \<Rightarrow> 64 word"

text \<open>The zero value \<^verbatim>\<open>HashMap[V]{}\<close> with the seed's function \<open>h\<close>: every bucket is nil.\<close>

definition HashMap_zero :: "(byte list \<Rightarrow> 64 word) \<Rightarrow> 'v HashMap" where
  "HashMap_zero h = \<lparr>data = (\<lambda>i. []), hash = h\<rparr>"

text \<open>\<^verbatim>\<open>h.resetAndWriteHash(key)\<close> followed by \<^verbatim>\<open>h.hash.Sum64()\<close>.\<close>

definition Sum64 :: "'v HashMap \<Rightarrow> key \<Rightarrow> 64 word" where
  "Sum64 h k = hash h (key_bytes k)"

text \<open>\<^verbatim>\<open>h.hash.Sum64() % DefaultTableSize\<close>, the index into \<open>data\<close>.\<close>

definition bucket_index :: "64 word \<Rightarrow> nat" where
  "bucket_index s = unat s mod DefaultTableSize"

text \<open>
  The loop of \<open>Delete\<close>: the first entry of the bucket whose \<open>HashKey\<close> equals the sum
  is cut out (\<^verbatim>\<open>append(b[:i], b[i+1:]...)\<close>) and the loop returns.
\<close>

fun delete_first :: "64 word \<Rightarrow> 'v entry list \<Rightarrow> 'v entry list" where
  "delete_first s [] = []"
| "delete_first s (v # vs) = (if s = HashKey v then vs else v # delete_first s vs)"

definition HashMap_Delete :: "'v HashMap \<Rightarrow> key \<Rightarrow> 'v HashMap" where
  "HashMap_Delete h k =
     (let s = Sum64 h k; i = bucket_index s
      in h\<lparr>data := (data h)(i := delete_first s (data h i))\<rparr>)"

text \<open>
  The loop of \<open>Get\<close>: the value of the first entry whose \<open>HashKey\<close> equals the sum.
  The pair \<^verbatim>\<open>(V, bool)\<close> is an option: \<open>None\<close> is \<^verbatim>\<open>(*new(V), false)\<close>.
\<close>

fun find_first :: "64 word \<Rightarrow> 'v entry list \<Rightarrow> 'v option" where
  "find_first s [] = None"
| "find_first s (v # vs) = (if s = HashKey v then Some (EValue v) else find_first s vs)"

definition HashMap_Get :: "'v HashMap \<Rightarrow> key \<Rightarrow> 'v option" where
  "HashMap_Get h k = (let s = Sum64 h k in find_first s (data h (bucket_index s)))"

text \<open>\<open>GetAll\<close>: the entries of all buckets, bucket after bucket (nil, the empty list, if none).\<close>

definition HashMap_GetAll :: "'v HashMap \<Rightarrow> 'v entry list" where
  "HashMap_GetAll h = concat (map (data h) [0..<DefaultTableSize])"

text \<open>
  The loop of \<open>Put\<close>: the first entry whose \<open>HashKey\<close> equals the sum gets the new value
  (its \<open>Key\<close> stays); \<open>None\<close> when the loop finds none, and then \<open>Put\<close> appends a new entry.
\<close>

fun overwrite_first :: "64 word \<Rightarrow> 'v \<Rightarrow> 'v entry list \<Rightarrow> 'v entry list option" where
  "overwrite_first s x [] = None"
| "overwrite_first s x (v # vs) =
     (if s = HashKey v then Some (v\<lparr>EValue := x\<rparr> # vs)
      else map_option ((#) v) (overwrite_first s x vs))"

definition HashMap_Put :: "'v HashMap \<Rightarrow> key \<Rightarrow> 'v \<Rightarrow> 'v HashMap" where
  "HashMap_Put h k x =
     (let s = Sum64 h k; i = bucket_index s
      in case overwrite_first s x (data h i) of
           Some b \<Rightarrow> h\<lparr>data := (data h)(i := b)\<rparr>
         | None \<Rightarrow> h\<lparr>data := (data h)(i := data h i @ [\<lparr>HashKey = s, Key = k, EValue = x\<rparr>])\<rparr>)"

section \<open>Package cache: entries (cache/cache_entry.go)\<close>

text \<open>
  \<^verbatim>\<open>type cacheEntry struct { Value []byte; Ttl time.Duration; ExpiresAt int64 }\<close>

  A value is a byte slice that may be nil (\<open>None\<close>). \<^verbatim>\<open>time.Duration\<close> and \<open>ExpiresAt\<close> are
  \<^verbatim>\<open>int64\<close>: 64-bit words, compared as signed numbers (\<open><s\<close>, \<open>\<le>s\<close>).
\<close>

record cacheEntry =
  Value :: "byte list option"
  Ttl :: "64 word"
  ExpiresAt :: "64 word"

definition NoExpiration :: "64 word" where
  "NoExpiration = 0"

definition emptyValueTTL :: "byte list option \<times> 64 word" where
  "emptyValueTTL = (None, 0)"

text \<open>
  \<open>IsExpired\<close> reads the clock; \<open>now\<close> is that reading, \<^verbatim>\<open>time.Now().UnixNano()\<close>.
\<close>

definition IsExpired :: "cacheEntry \<Rightarrow> 64 word \<Rightarrow> bool" where
  "IsExpired c now \<longleftrightarrow> NoExpiration \<noteq> ExpiresAt c \<and> ExpiresAt c \<le>s now"

definition GetValueTTL :: "cacheEntry \<Rightarrow> 64 word \<Rightarrow> byte list option \<times> 64 word" where
  "GetValueTTL c now = (if IsExpired c now then emptyValueTTL else (Value c, Ttl c))"

section \<open>Package cache: configuration (cache/config.go)\<close>

record Config =
  CleanerInterval :: int
  KeysAmountByCycle :: int

definition DefaultCleanerInterval :: int where "DefaultCleanerInterval = 200"
definition DefaultKeysAmountByCycle :: int where "DefaultKeysAmountByCycle = 20"
definition ExpiredKeysPercentageTolerance :: int where "ExpiredKeysPercentageTolerance = 25"
definition MinCleanerInterval :: int where "MinCleanerInterval = 50"
definition MinKeysAmountByCycle :: int where "MinKeysAmountByCycle = 5"

definition DefaultConfig :: Config where
  "DefaultConfig =
     \<lparr>CleanerInterval = DefaultCleanerInterval, KeysAmountByCycle = DefaultKeysAmountByCycle\<rparr>"

definition validateAndAdjustConfig :: "Config \<Rightarrow> Config" where
  "validateAndAdjustConfig conf =
     (let conf1 = (if CleanerInterval conf < MinCleanerInterval
                   then conf\<lparr>CleanerInterval := DefaultCleanerInterval\<rparr> else conf)
      in if KeysAmountByCycle conf1 < MinKeysAmountByCycle
         then conf1\<lparr>KeysAmountByCycle := DefaultKeysAmountByCycle\<rparr> else conf1)"

section \<open>Package cache: the cache\<close>

text \<open>
  Of \<^verbatim>\<open>ActiveCache\<close> the model keeps the configuration and the table. The mutex only
  serialises the operations, each of which is modelled as one atomic step.
\<close>

record ActiveCache =
  config :: Config
  entries :: "cacheEntry HashMap"

text \<open>
  \<open>NewActiveCacheWithConfig\<close>: \<open>None\<close> is the nil configuration; \<open>h\<close> is the function of the
  seed that the table's hash will choose.
\<close>

definition NewActiveCacheWithConfig :: "(byte list \<Rightarrow> 64 word) \<Rightarrow> Config option \<Rightarrow> ActiveCache" where
  "NewActiveCacheWithConfig h conf =
     \<lparr>config = (case conf of None \<Rightarrow> DefaultConfig | Some c \<Rightarrow> validateAndAdjustConfig c),
      entries = HashMap_zero h\<rparr>"

definition NewActiveCache :: "(byte list \<Rightarrow> 64 word) \<Rightarrow> ActiveCache" where
  "NewActiveCache h = NewActiveCacheWithConfig h None"

definition ActiveCache_Get :: "ActiveCache \<Rightarrow> key \<Rightarrow> 64 word \<Rightarrow> byte list option \<times> 64 word" where
  "ActiveCache_Get c k now =
     (if k = None then emptyValueTTL
      else case HashMap_Get (entries c) k of
             Some entry \<Rightarrow> GetValueTTL entry now
           | None \<Rightarrow> emptyValueTTL)"

text \<open>
  \<open>Set\<close>. The expiration instant is \<^verbatim>\<open>time.Now().Add(ttl).UnixNano()\<close>: the clock reading
  plus the duration, in \<^verbatim>\<open>int64\<close> nanoseconds, which wraps around as word addition does.
\<close>

definition ActiveCache_Set ::
  "ActiveCache \<Rightarrow> key \<Rightarrow> byte list option \<Rightarrow> 64 word \<Rightarrow> 64 word \<Rightarrow> ActiveCache" where
  "ActiveCache_Set c k v ttl now =
     (if k \<noteq> None then
        if ttl <s NoExpiration then c\<lparr>entries := HashMap_Delete (entries c) k\<rparr>
        else
          let expiresAt = (if NoExpiration <s ttl then now + ttl else 0)
          in c\<lparr>entries := HashMap_Put (entries c) k \<lparr>Value = v, Ttl = ttl, ExpiresAt = expiresAt\<rparr>\<rparr>
      else c)"

section \<open>Package cache: the sampler\<close>

text \<open>
  What the Go runtime raises: slicing beyond the bounds, indexing beyond the length, and
  integer division by zero.
\<close>

datatype panic = SliceBoundsOutOfRange | IndexOutOfRange | IntegerDivideByZero

text \<open>The slice expression \<^verbatim>\<open>xs[:n]\<close> on a slice whose capacity is its length.\<close>

definition slice_to :: "nat list \<Rightarrow> int \<Rightarrow> panic + nat list" where
  "slice_to xs n =
     (if n < 0 \<or> int (length xs) < n then Inl SliceBoundsOutOfRange else Inr (take (nat n) xs))"

text \<open>
  The loop \<^verbatim>\<open>for _, i := range indexesToCheck\<close> of \<open>defaultClean\<close>. \<open>snapshot\<close> is the
  slice \<^verbatim>\<open>entries\<close> that \<open>GetAll\<close> returned (copies of the records), \<open>m\<close> the table being
  cleaned.
  The values are the entries themselves: the cache only ever stores non-nil pointers.
\<close>

fun clean_loop ::
  "cacheEntry entry list \<Rightarrow> 64 word \<Rightarrow> nat list \<Rightarrow> cacheEntry HashMap \<Rightarrow> int
   \<Rightarrow> panic + (cacheEntry HashMap \<times> int)" where
  "clean_loop snapshot now [] m deleted = Inr (m, deleted)"
| "clean_loop snapshot now (i # is) m deleted =
     (if length snapshot \<le> i then Inl IndexOutOfRange
      else if IsExpired (EValue (snapshot ! i)) now
        then clean_loop snapshot now is (HashMap_Delete m (Key (snapshot ! i))) (deleted + 1)
        else clean_loop snapshot now is m deleted)"

text \<open>
  \<open>defaultClean\<close>. The random source is the parameter \<open>Perm\<close>: \<open>Perm call n\<close> is what the
  \<open>call\<close>-th \<^verbatim>\<open>rand.Perm(n)\<close> of the invocation returns. The clock is the parameter \<open>now\<close>, one
  reading for the whole invocation, which the model takes as instantaneous. The recursion
  has no bound in the source, so the result is an option: \<open>None\<close> is a run that never
  returns, \<open>Some (Inl p)\<close> a panic, \<open>Some (Inr m)\<close> the table as the sampler leaves it.
\<close>

partial_function (option) defaultClean ::
  "(nat \<Rightarrow> nat \<Rightarrow> nat list) \<Rightarrow> 64 word \<Rightarrow> nat \<Rightarrow> cacheEntry HashMap \<Rightarrow> Config
   \<Rightarrow> (panic + cacheEntry HashMap) option" where
  "defaultClean Perm now call entriesMap conf =
     (let entries = HashMap_GetAll entriesMap;
          sampleSize = min (KeysAmountByCycle conf) (int (length entries))
      in if sampleSize = 0 then Some (Inr entriesMap)
         else
           case slice_to (Perm call (length entries)) sampleSize of
             Inl p \<Rightarrow> Some (Inl p)
           | Inr indexesToCheck \<Rightarrow>
               (case clean_loop entries now indexesToCheck entriesMap 0 of
                  Inl p \<Rightarrow> Some (Inl p)
                | Inr (m, deleted) \<Rightarrow>
                    if length indexesToCheck = 0 then Some (Inl IntegerDivideByZero)
                    else if deleted * 100 div int (length indexesToCheck)
                            > ExpiredKeysPercentageTolerance
                      then defaultClean Perm now (Suc call) m conf
                      else Some (Inr m)))"

declare defaultClean.simps [code]

text \<open>\<open>performClean\<close>: the clean function runs on the cache's table and configuration.\<close>

definition performClean ::
  "(nat \<Rightarrow> nat \<Rightarrow> nat list) \<Rightarrow> 64 word \<Rightarrow> ActiveCache \<Rightarrow> (panic + ActiveCache) option" where
  "performClean Perm now c =
     map_option (map_sum id (\<lambda>m. c\<lparr>entries := m\<rparr>)) (defaultClean Perm now 0 (entries c) (config c))"

section \<open>Invariant of the table and validity of the random source\<close>

text \<open>
  The invariant of section 3 of the specification, in the form the code maintains it: in
  every bucket the stored hashes are pairwise different, and every entry carries the hash
  of its own key and lies in the bucket of that hash.
\<close>

definition table_inv :: "'v HashMap \<Rightarrow> bool" where
  "table_inv h \<longleftrightarrow>
     (\<forall>i < DefaultTableSize.
        distinct (map HashKey (data h i)) \<and>
        (\<forall>v \<in> set (data h i). HashKey v = Sum64 h (Key v) \<and> bucket_index (HashKey v) = i))"

text \<open>\<^verbatim>\<open>rand.Perm(n)\<close> returns a permutation of the integers \<open>0, \<dots>, n - 1\<close>.\<close>

definition Perm_ok :: "(nat \<Rightarrow> nat \<Rightarrow> nat list) \<Rightarrow> bool" where
  "Perm_ok Perm \<longleftrightarrow> (\<forall>call n. distinct (Perm call n) \<and> set (Perm call n) = {..<n})"

text \<open>The entries of a snapshot that are not expired at \<open>now\<close>, and those that are.\<close>

definition live_entries :: "64 word \<Rightarrow> cacheEntry entry list \<Rightarrow> cacheEntry entry list" where
  "live_entries now es = filter (\<lambda>v. \<not> IsExpired (EValue v) now) es"


text \<open>
  The invariant of section 3 of the specification on the stored entries: the expiration
  instant is the sentinel exactly when the duration is.
\<close>

definition entry_inv :: "cacheEntry \<Rightarrow> bool" where
  "entry_inv e \<longleftrightarrow> (ExpiresAt e = NoExpiration) = (Ttl e = NoExpiration)"

definition cache_inv :: "ActiveCache \<Rightarrow> bool" where
  "cache_inv c \<longleftrightarrow> list_all (\<lambda>v. entry_inv (EValue v)) (HashMap_GetAll (entries c))"

section \<open>Package cache: the cleaner loop\<close>

text \<open>
  The goroutine of \<open>StartCleaner\<close>. If the cleaner is not running, it marks it running,
  creates \<^verbatim>\<open>timer := time.NewTimer(interval)\<close> once, before the loop, and then loops
  forever on \<^verbatim>\<open>select { case <-c.stopChan: ...; return  case <-timer.C: c.performClean() }\<close>.
  A \<^verbatim>\<open>time.Timer\<close> sends on its channel one single time, when its duration has
  elapsed, unless it is reset, and the loop never resets it.

  The model follows the goroutine through the wake-ups its environment can give it: one
  more \<open>CleanerInterval\<close> has elapsed, or the stop channel has been closed. \<open>timerArmed\<close>
  says that the timer has not yet sent. \<open>cleanFunc\<close> is the field of that name, the
  function \<open>performClean\<close> calls, and \<open>cleaned\<close> is the state it acts on.
\<close>

datatype wakeup = IntervalElapsed | StopClosed

record 'c cleaner =
  isCleanerRunning :: bool
  timerArmed :: bool
  cleaned :: 'c

definition StartCleaner :: "'c cleaner \<Rightarrow> 'c cleaner" where
  "StartCleaner c =
     (if \<not> isCleanerRunning c then c\<lparr>isCleanerRunning := True, timerArmed := True\<rparr> else c)"

fun cleaner_select :: "('c \<Rightarrow> 'c) \<Rightarrow> wakeup \<Rightarrow> 'c cleaner \<Rightarrow> 'c cleaner" where
  "cleaner_select cleanFunc StopClosed c = c\<lparr>isCleanerRunning := False\<rparr>"
| "cleaner_select cleanFunc IntervalElapsed c =
     (if timerArmed c then c\<lparr>timerArmed := False, cleaned := cleanFunc (cleaned c)\<rparr> else c)"

fun cleaner_loop :: "('c \<Rightarrow> 'c) \<Rightarrow> wakeup list \<Rightarrow> 'c cleaner \<Rightarrow> 'c cleaner" where
  "cleaner_loop cleanFunc [] c = c"
| "cleaner_loop cleanFunc (w # ws) c =
     (if isCleanerRunning c then cleaner_loop cleanFunc ws (cleaner_select cleanFunc w c) else c)"

section \<open>A seed for the concrete evaluations\<close>

text \<open>
  The concrete evaluations below need one function for the field \<open>hash\<close>. This one adds
  up the bytes of the key. Like every function from byte sequences to 64 bits, the
  library's included, it gives some two different keys the same sum.
\<close>

definition byte_sum :: "byte list \<Rightarrow> 64 word" where
  "byte_sum bs = sum_list (map ucast bs)"

text \<open>The counter that stands for \<open>cleanFunc\<close> where its calls are counted.\<close>

definition count_clean :: "nat \<Rightarrow> nat" where
  "count_clean n = Suc n"

text \<open>The permutation \<open>0, \<dots>, n - 1\<close> itself, one of those \<^verbatim>\<open>rand.Perm(n)\<close> can return.\<close>

definition identity_Perm :: "nat \<Rightarrow> nat \<Rightarrow> nat list" where
  "identity_Perm call n = [0..<n]"

text \<open>
  A cache built through \<open>Set\<close> alone, at clock reading 10 and with the smallest valid
  sample size: the keys are the one-byte sequences 0 to 7, each stored with itself as the
  value; the keys 0, 1 and 7 get a duration of one nanosecond, the others never expire.
\<close>

definition sample_cache :: ActiveCache where
  "sample_cache =
     fold (\<lambda>(k, ttl) c. ActiveCache_Set c (Some [k]) (Some [k]) ttl 10)
       [(0, 1), (1, 1), (2, 0), (3, 0), (4, 0), (5, 0), (6, 0), (7, 1)]
       (NewActiveCacheWithConfig byte_sum (Some \<lparr>CleanerInterval = 200, KeysAmountByCycle = 5\<rparr>))"

section \<open>Facts about the table\<close>

lemma find_first_overwrite:
  "overwrite_first s x b = Some b' \<Longrightarrow> find_first s b' = Some x"
  by (induction b arbitrary: b') (auto split: if_splits)

lemma find_first_append_new:
  "overwrite_first s x b = None \<Longrightarrow>
   find_first s (b @ [\<lparr>HashKey = s, Key = k, EValue = x\<rparr>]) = Some x"
  by (induction b) (auto split: if_splits)

lemma HashMap_Get_Put_same: "HashMap_Get (HashMap_Put h k x) k = Some x"
  by (simp add: HashMap_Get_def HashMap_Put_def Sum64_def Let_def
      find_first_overwrite find_first_append_new split: option.splits)

lemma set_delete_first: "set (delete_first s b) \<subseteq> set b"
  by (induction b) auto

lemma length_delete_first: "length (delete_first s b) \<le> length b"
  by (induction b) auto

lemma length_delete_first_mem:
  "s \<in> HashKey ` set b \<Longrightarrow> Suc (length (delete_first s b)) = length b"
  by (induction b) auto

lemma filter_other_hash:
  "s \<notin> HashKey ` set b \<Longrightarrow> filter (\<lambda>v. HashKey v \<noteq> s) b = b"
  by (induction b) auto

lemma delete_first_filter:
  "distinct (map HashKey b) \<Longrightarrow> delete_first s b = filter (\<lambda>v. HashKey v \<noteq> s) b"
  by (induction b) (auto simp: filter_other_hash)

lemma table_inv_distinct:
  "table_inv h \<Longrightarrow> i < DefaultTableSize \<Longrightarrow> distinct (map HashKey (data h i))"
  by (simp add: table_inv_def)

lemma table_inv_hash:
  "table_inv h \<Longrightarrow> i < DefaultTableSize \<Longrightarrow> v \<in> set (data h i) \<Longrightarrow> HashKey v = Sum64 h (Key v)"
  unfolding table_inv_def by blast

lemma table_inv_bucket:
  "table_inv h \<Longrightarrow> i < DefaultTableSize \<Longrightarrow> v \<in> set (data h i) \<Longrightarrow> bucket_index (HashKey v) = i"
  unfolding table_inv_def by blast

lemma distinct_delete_first:
  "distinct (map HashKey b) \<Longrightarrow> distinct (map HashKey (delete_first s b))"
  by (simp add: delete_first_filter distinct_map_filter)

lemma concat_upd_length:
  "i < n \<Longrightarrow>
   length (concat (map (f(i := b)) [0..<n])) + length (f i) =
   length (concat (map f [0..<n])) + length (b :: 'a list)"
  by (induction n) (auto simp: less_Suc_eq)

lemma concat_upd_set:
  "set b \<subseteq> set (f i) \<Longrightarrow> set (concat (map (f(i := b)) [0..<n])) \<subseteq> set (concat (map f [0..<n]))"
  by (induction n) auto

lemma hash_Delete [simp]: "hash (HashMap_Delete h k) = hash h"
  by (simp add: HashMap_Delete_def Let_def)

lemma Sum64_Delete [simp]: "Sum64 (HashMap_Delete h k) k' = Sum64 h k'"
  by (simp add: Sum64_def)

lemma bucket_index_less [simp]: "bucket_index s < DefaultTableSize"
  by (simp add: bucket_index_def DefaultTableSize_def)

lemma set_GetAll_Delete: "set (HashMap_GetAll (HashMap_Delete h k)) \<subseteq> set (HashMap_GetAll h)"
  unfolding HashMap_GetAll_def HashMap_Delete_def Let_def
  by (simp del: set_concat) (rule concat_upd_set, rule set_delete_first)

lemma length_GetAll_Delete:
  "length (HashMap_GetAll (HashMap_Delete h k)) \<le> length (HashMap_GetAll h)"
  using concat_upd_length [of "bucket_index (Sum64 h k)" DefaultTableSize "data h"
      "delete_first (Sum64 h k) (data h (bucket_index (Sum64 h k)))"]
    length_delete_first [of "Sum64 h k" "data h (bucket_index (Sum64 h k))"]
  by (simp add: HashMap_GetAll_def HashMap_Delete_def Let_def)

lemma table_inv_Delete:
  assumes "table_inv h"
  shows "table_inv (HashMap_Delete h k)"
proof -
  let ?s = "Sum64 h k"
  let ?i = "bucket_index ?s"
  let ?d = "(data h)(?i := delete_first ?s (data h ?i))"
  have d: "data (HashMap_Delete h k) = ?d"
    by (simp add: HashMap_Delete_def Let_def)
  have sub: "set (?d j) \<subseteq> set (data h j)" for j
    using set_delete_first [of ?s "data h ?i"] by simp
  have "distinct (map HashKey (?d j))" if "j < DefaultTableSize" for j
    using table_inv_distinct [OF assms that] table_inv_distinct [OF assms, of ?i]
    by (simp add: distinct_delete_first)
  moreover have "HashKey v = Sum64 (HashMap_Delete h k) (Key v) \<and> bucket_index (HashKey v) = j"
    if "j < DefaultTableSize" "v \<in> set (?d j)" for j v
  proof -
    from that(2) sub have "v \<in> set (data h j)" by blast
    with assms that(1) show ?thesis
      using table_inv_hash [of h j v] table_inv_bucket [of h j v] by simp
  qed
  ultimately show ?thesis
    unfolding table_inv_def d by blast
qed

lemma mem_GetAll: "v \<in> set (HashMap_GetAll h) \<longleftrightarrow> (\<exists>i < DefaultTableSize. v \<in> set (data h i))"
  by (auto simp: HashMap_GetAll_def)

lemma table_inv_mem:
  "table_inv h \<Longrightarrow> v \<in> set (HashMap_GetAll h) \<Longrightarrow>
   HashKey v = Sum64 h (Key v) \<and> v \<in> set (data h (bucket_index (HashKey v)))"
  by (auto simp: mem_GetAll table_inv_def)

lemma length_GetAll_Delete_mem:
  assumes "table_inv h" "v \<in> set (HashMap_GetAll h)"
  shows "length (HashMap_GetAll (HashMap_Delete h (Key v))) < length (HashMap_GetAll h)"
proof -
  let ?s = "Sum64 h (Key v)"
  from table_inv_mem [OF assms] have "?s \<in> HashKey ` set (data h (bucket_index ?s))"
    by force
  from length_delete_first_mem [OF this]
    concat_upd_length [of "bucket_index ?s" DefaultTableSize "data h"
      "delete_first ?s (data h (bucket_index ?s))"]
  show ?thesis
    by (simp add: HashMap_GetAll_def HashMap_Delete_def Let_def)
qed

lemma GetAll_Delete_filter:
  assumes "table_inv h"
  shows "HashMap_GetAll (HashMap_Delete h k) =
         filter (\<lambda>v. HashKey v \<noteq> Sum64 h k) (HashMap_GetAll h)"
proof -
  let ?s = "Sum64 h k"
  let ?i = "bucket_index ?s"
  have "((data h)(?i := delete_first ?s (data h ?i))) j =
        filter (\<lambda>v. HashKey v \<noteq> ?s) (data h j)" if "j < DefaultTableSize" for j
  proof (cases "j = ?i")
    case True
    with assms that show ?thesis
      by (simp add: table_inv_def delete_first_filter)
  next
    case False
    have "?s \<notin> HashKey ` set (data h j)"
    proof
      assume "?s \<in> HashKey ` set (data h j)"
      then obtain v where "v \<in> set (data h j)" "HashKey v = ?s" by auto
      with table_inv_bucket [OF assms that, of v] False show False by simp
    qed
    with False show ?thesis
      by (simp add: filter_other_hash)
  qed
  then have eq: "map ((data h)(?i := delete_first ?s (data h ?i))) [0..<DefaultTableSize] =
      map (\<lambda>j. filter (\<lambda>v. HashKey v \<noteq> ?s) (data h j)) [0..<DefaultTableSize]"
    by (intro map_cong) simp_all
  show ?thesis
    by (simp add: HashMap_GetAll_def HashMap_Delete_def Let_def filter_concat comp_def eq)
qed

lemma distinct_HashKey_GetAll:
  assumes "table_inv h"
  shows "distinct (map HashKey (HashMap_GetAll h))"
proof -
  have "distinct (map HashKey (concat (map (data h) [0..<n])))" if "n \<le> DefaultTableSize" for n
    using that
  proof (induction n)
    case 0
    then show ?case by simp
  next
    case (Suc n)
    have "HashKey v \<noteq> HashKey w"
      if vw: "v \<in> set (data h n)" "j < n" "w \<in> set (data h j)" for v w j
    proof
      assume "HashKey v = HashKey w"
      from Suc.prems vw have "bucket_index (HashKey v) = n" "bucket_index (HashKey w) = j"
        using table_inv_bucket [OF assms, of n v] table_inv_bucket [OF assms, of j w] by linarith+
      with vw \<open>HashKey v = HashKey w\<close> show False by simp
    qed
    moreover have "distinct (map HashKey (data h n))"
      using assms Suc.prems by (simp add: table_inv_def)
    ultimately show ?case
      using Suc by fastforce
  qed
  then show ?thesis
    by (simp add: HashMap_GetAll_def)
qed


lemma clean_loop_Inr:
  "clean_loop sn now is m d = Inr (m', d') \<Longrightarrow>
   hash m' = hash m \<and> set (HashMap_GetAll m') \<subseteq> set (HashMap_GetAll m)
   \<and> length (HashMap_GetAll m') \<le> length (HashMap_GetAll m) \<and> d \<le> d'"
proof (induction "is" arbitrary: m d)
  case Nil
  then show ?case by simp
next
  case (Cons i "is")
  show ?case
  proof (cases "IsExpired (EValue (sn ! i)) now")
    case True
    with Cons.prems have "clean_loop sn now is (HashMap_Delete m (Key (sn ! i))) (d + 1) = Inr (m', d')"
      by (simp split: if_splits)
    from Cons.IH [OF this] set_GetAll_Delete [of m "Key (sn ! i)"]
      length_GetAll_Delete [of m "Key (sn ! i)"]
    show ?thesis by auto
  next
    case False
    with Cons.prems have "clean_loop sn now is m d = Inr (m', d')"
      by (simp split: if_splits)
    from Cons.IH [OF this] show ?thesis .
  qed
qed

lemma clean_loop_Inl: "clean_loop sn now is m d = Inl p \<Longrightarrow> p = IndexOutOfRange"
  by (induction "is" arbitrary: m d) (auto split: if_splits)

lemma clean_loop_in_range:
  "\<forall>i \<in> set is. i < length sn \<Longrightarrow> \<exists>m' d'. clean_loop sn now is m d = Inr (m', d')"
  by (induction "is" arbitrary: m d) auto

lemma clean_loop_inv:
  "table_inv m \<Longrightarrow> clean_loop sn now is m d = Inr (m', d') \<Longrightarrow> table_inv m'"
  by (induction "is" arbitrary: m d) (auto split: if_splits intro: table_inv_Delete)

lemma clean_loop_shrinks:
  "table_inv m \<Longrightarrow> set sn \<subseteq> set (HashMap_GetAll m) \<Longrightarrow>
   clean_loop sn now is m d = Inr (m', d') \<Longrightarrow> d < d' \<Longrightarrow>
   length (HashMap_GetAll m') < length (HashMap_GetAll m)"
proof (induction "is" arbitrary: m d)
  case Nil
  then show ?case by simp
next
  case (Cons i "is")
  from Cons.prems(3) have i: "i < length sn"
    by (simp split: if_splits)
  show ?case
  proof (cases "IsExpired (EValue (sn ! i)) now")
    case True
    with Cons.prems(3) i
    have "clean_loop sn now is (HashMap_Delete m (Key (sn ! i))) (d + 1) = Inr (m', d')"
      by simp
    from clean_loop_Inr [OF this]
    have "length (HashMap_GetAll m') \<le> length (HashMap_GetAll (HashMap_Delete m (Key (sn ! i))))"
      by simp
    moreover from i Cons.prems(2) have "sn ! i \<in> set (HashMap_GetAll m)"
      by (meson nth_mem subsetD)
    from length_GetAll_Delete_mem [OF Cons.prems(1) this]
    have "length (HashMap_GetAll (HashMap_Delete m (Key (sn ! i)))) < length (HashMap_GetAll m)" .
    ultimately show ?thesis by simp
  next
    case False
    with Cons.prems(3) i have "clean_loop sn now is m d = Inr (m', d')"
      by simp
    from Cons.IH [OF Cons.prems(1,2) this Cons.prems(4)] show ?thesis .
  qed
qed

lemma live_entries_Delete:
  assumes "table_inv m" "distinct (map HashKey sn)" "set (HashMap_GetAll m) \<subseteq> set sn"
    "e \<in> set sn" "HashKey e = Sum64 m (Key e)" "IsExpired (EValue e) now"
  shows "live_entries now (HashMap_GetAll (HashMap_Delete m (Key e))) =
         live_entries now (HashMap_GetAll m)"
proof -
  have "HashKey v \<noteq> HashKey e"
    if "v \<in> set (HashMap_GetAll m)" "\<not> IsExpired (EValue v) now" for v
  proof
    assume "HashKey v = HashKey e"
    moreover from that assms(3) have "v \<in> set sn" by blast
    ultimately have "v = e"
      using assms(2,4) by (meson distinct_map inj_onD)
    with that assms(6) show False by simp
  qed
  then show ?thesis
    unfolding live_entries_def GetAll_Delete_filter [OF assms(1)] filter_filter
    using assms(5) by (intro filter_cong) auto
qed

lemma clean_loop_live:
  "table_inv m \<Longrightarrow> distinct (map HashKey sn) \<Longrightarrow> set (HashMap_GetAll m) \<subseteq> set sn \<Longrightarrow>
   \<forall>v \<in> set sn. HashKey v = Sum64 m (Key v) \<Longrightarrow>
   clean_loop sn now is m d = Inr (m', d') \<Longrightarrow>
   live_entries now (HashMap_GetAll m') = live_entries now (HashMap_GetAll m)"
proof (induction "is" arbitrary: m d)
  case Nil
  then show ?case by simp
next
  case (Cons i "is")
  from Cons.prems(5) have i: "i < length sn"
    by (simp split: if_splits)
  show ?case
  proof (cases "IsExpired (EValue (sn ! i)) now")
    case True
    let ?m1 = "HashMap_Delete m (Key (sn ! i))"
    from True Cons.prems(5) i have run: "clean_loop sn now is ?m1 (d + 1) = Inr (m', d')"
      by simp
    have "table_inv ?m1"
      using Cons.prems(1) by (rule table_inv_Delete)
    moreover have "set (HashMap_GetAll ?m1) \<subseteq> set sn"
      using set_GetAll_Delete [of m "Key (sn ! i)"] Cons.prems(3) by blast
    moreover have "\<forall>v \<in> set sn. HashKey v = Sum64 ?m1 (Key v)"
      using Cons.prems(4) by simp
    ultimately have "live_entries now (HashMap_GetAll m') = live_entries now (HashMap_GetAll ?m1)"
      using Cons.IH [of ?m1 "d + 1"] Cons.prems(2) run by blast
    also have "\<dots> = live_entries now (HashMap_GetAll m)"
      using Cons.prems(1,2,3,4) i True by (intro live_entries_Delete [of m sn]) simp_all
    finally show ?thesis .
  next
    case False
    with Cons.prems(5) i have "clean_loop sn now is m d = Inr (m', d')"
      by simp
    from Cons.IH [OF Cons.prems(1,2,3,4) this] show ?thesis .
  qed
qed

lemma hash_Put [simp]: "hash (HashMap_Put h k x) = hash h"
  by (simp add: HashMap_Put_def Let_def split: option.splits)

lemma Sum64_Put [simp]: "Sum64 (HashMap_Put h k x) k' = Sum64 h k'"
  by (simp add: Sum64_def)

lemma overwrite_first_Some:
  "overwrite_first s x b = Some b' \<Longrightarrow>
   map HashKey b' = map HashKey b \<and> map Key b' = map Key b
   \<and> (\<forall>v \<in> set b'. v \<in> set b \<or> EValue v = x)"
  by (induction b arbitrary: b') (auto split: if_splits)

lemma overwrite_first_None: "overwrite_first s x b = None \<Longrightarrow> s \<notin> HashKey ` set b"
  by (induction b) (auto split: if_splits)

lemma find_first_None: "find_first s b = None \<longleftrightarrow> s \<notin> HashKey ` set b"
  by (induction b) auto

lemma find_first_delete_first_same:
  "distinct (map HashKey b) \<Longrightarrow> find_first s (delete_first s b) = None"
  by (induction b) (auto simp: find_first_None)

lemma find_first_delete_first_other:
  "s' \<noteq> s \<Longrightarrow> find_first s' (delete_first s b) = find_first s' b"
  by (induction b) auto

lemma find_first_overwrite_other:
  "s' \<noteq> s \<Longrightarrow> overwrite_first s x b = Some b' \<Longrightarrow> find_first s' b' = find_first s' b"
  by (induction b arbitrary: b') (auto split: if_splits)

lemma find_first_append_other:
  "s' \<noteq> s \<Longrightarrow> find_first s' (b @ [\<lparr>HashKey = s, Key = k, EValue = x\<rparr>]) = find_first s' b"
  by (induction b) auto

lemma table_inv_zero: "table_inv (HashMap_zero h)"
  by (simp add: table_inv_def HashMap_zero_def)

lemma overwrite_first_pres:
  "overwrite_first s x b = Some b' \<Longrightarrow> \<forall>v \<in> set b. P (HashKey v) (Key v) \<Longrightarrow>
   \<forall>v \<in> set b'. P (HashKey v) (Key v)"
  by (induction b arbitrary: b') (auto split: if_splits)

lemma table_inv_Put:
  assumes "table_inv h"
  shows "table_inv (HashMap_Put h k x)"
proof -
  let ?s = "Sum64 h k"
  let ?i = "bucket_index ?s"
  let ?P = "\<lambda>j s k. s = Sum64 h k \<and> bucket_index s = j"
  have old: "distinct (map HashKey (data h j))" "\<forall>v \<in> set (data h j). ?P j (HashKey v) (Key v)"
    if "j < DefaultTableSize" for j
    using table_inv_distinct [OF assms that] table_inv_hash [OF assms that]
      table_inv_bucket [OF assms that] by blast+
  have "distinct (map HashKey (data (HashMap_Put h k x) j))
      \<and> (\<forall>v \<in> set (data (HashMap_Put h k x) j). ?P j (HashKey v) (Key v))"
    if j: "j < DefaultTableSize" for j
  proof (cases "j = ?i")
    case False
    then have eq: "data (HashMap_Put h k x) j = data h j"
      by (simp add: HashMap_Put_def Let_def split: option.splits)
    show ?thesis
      unfolding eq using old [OF j] by blast
  next
    case True
    show ?thesis
    proof (cases "overwrite_first ?s x (data h ?i)")
      case None
      then have d: "data (HashMap_Put h k x) ?i =
          data h ?i @ [\<lparr>HashKey = ?s, Key = k, EValue = x\<rparr>]"
        by (simp add: HashMap_Put_def Let_def)
      from None have "?s \<notin> HashKey ` set (data h ?i)"
        by (rule overwrite_first_None)
      with old(1) [OF bucket_index_less [of ?s]]
      have "distinct (map HashKey (data h ?i @ [\<lparr>HashKey = ?s, Key = k, EValue = x\<rparr>]))"
        by simp
      moreover have "\<forall>v \<in> set (data h ?i @ [\<lparr>HashKey = ?s, Key = k, EValue = x\<rparr>]).
          ?P ?i (HashKey v) (Key v)"
      proof
        fix v
        assume "v \<in> set (data h ?i @ [\<lparr>HashKey = ?s, Key = k, EValue = x\<rparr>])"
        then consider "v \<in> set (data h ?i)" | "v = \<lparr>HashKey = ?s, Key = k, EValue = x\<rparr>"
          by auto
        then show "?P ?i (HashKey v) (Key v)"
        proof cases
          case 1
          with old(2) [OF bucket_index_less [of ?s]] show ?thesis by blast
        next
          case 2
          then show ?thesis by simp
        qed
      qed
      ultimately show ?thesis
        unfolding True d by blast
    next
      case (Some b)
      then have d: "data (HashMap_Put h k x) ?i = b"
        by (simp add: HashMap_Put_def Let_def)
      from overwrite_first_Some [OF Some] old(1) [OF bucket_index_less [of ?s]]
      have "distinct (map HashKey b)"
        by simp
      moreover from Some old(2) [OF bucket_index_less [of ?s]]
      have "\<forall>v \<in> set b. ?P ?i (HashKey v) (Key v)"
        by (rule overwrite_first_pres [where P = "?P ?i"])
      ultimately show ?thesis
        unfolding True d by blast
    qed
  qed
  then show ?thesis
    unfolding table_inv_def Sum64_Put by blast
qed

lemma HashMap_Get_Delete_same:
  "table_inv h \<Longrightarrow> HashMap_Get (HashMap_Delete h k) k = None"
  by (simp add: HashMap_Get_def HashMap_Delete_def Let_def Sum64_def
      find_first_delete_first_same table_inv_distinct)

lemma HashMap_Get_Delete_other:
  "Sum64 h k' \<noteq> Sum64 h k \<Longrightarrow> HashMap_Get (HashMap_Delete h k) k' = HashMap_Get h k'"
  by (simp add: HashMap_Get_def HashMap_Delete_def Let_def Sum64_def find_first_delete_first_other)

lemma HashMap_Get_Put_other:
  "Sum64 h k' \<noteq> Sum64 h k \<Longrightarrow> HashMap_Get (HashMap_Put h k x) k' = HashMap_Get h k'"
  by (auto simp: HashMap_Get_def HashMap_Put_def Let_def Sum64_def find_first_overwrite_other
      find_first_append_other split: option.splits)

lemma mem_GetAll_Put:
  assumes "v \<in> set (HashMap_GetAll (HashMap_Put h k x))"
  shows "v \<in> set (HashMap_GetAll h) \<or> EValue v = x"
proof -
  let ?s = "Sum64 h k"
  let ?i = "bucket_index ?s"
  from assms obtain j where j: "j < DefaultTableSize" "v \<in> set (data (HashMap_Put h k x) j)"
    by (auto simp: mem_GetAll)
  have "v \<in> set (data h j) \<or> EValue v = x"
  proof (cases "overwrite_first ?s x (data h ?i)")
    case None
    then have "data (HashMap_Put h k x) =
        (data h)(?i := data h ?i @ [\<lparr>HashKey = ?s, Key = k, EValue = x\<rparr>])"
      by (simp add: HashMap_Put_def Let_def)
    with j(2) show ?thesis
      by (auto split: if_splits)
  next
    case (Some b)
    then have "data (HashMap_Put h k x) = (data h)(?i := b)"
      by (simp add: HashMap_Put_def Let_def)
    with j(2) overwrite_first_Some [OF Some] show ?thesis
      by (auto split: if_splits)
  qed
  with j(1) show ?thesis
    unfolding mem_GetAll by blast
qed

lemma hash_collision_exists:
  fixes h :: "byte list \<Rightarrow> 64 word"
  shows "\<exists>k1 k2. k1 \<noteq> k2 \<and> h k1 = h k2"
proof (rule ccontr)
  assume "\<not> ?thesis"
  then have "inj h"
    by (auto simp: inj_on_def)
  then have "finite (UNIV :: byte list set)"
    by (rule finite_imageD [rotated]) simp
  then show False
    by (simp add: infinite_UNIV_listI)
qed

lemma HashMap_Get_Put_collision:
  "Sum64 h k1 = Sum64 h k2 \<Longrightarrow> HashMap_Get (HashMap_Put (HashMap_Put h k1 x1) k2 x2) k1 = Some x2"
  using HashMap_Get_Put_same [of "HashMap_Put h k1 x1" k2 x2]
  unfolding HashMap_Get_def Let_def Sum64_Put by simp

section \<open>Facts about the sampler\<close>

lemma Perm_ok_length: "Perm_ok Perm \<Longrightarrow> length (Perm call n) = n"
  unfolding Perm_ok_def by (metis card_lessThan distinct_card)

lemma Perm_ok_range: "Perm_ok Perm \<Longrightarrow> i \<in> set (Perm call n) \<Longrightarrow> i < n"
  unfolding Perm_ok_def by blast

lemma slice_to_Inl: "slice_to xs n = Inl p \<Longrightarrow> p = SliceBoundsOutOfRange"
  by (simp add: slice_to_def split: if_splits)

lemma slice_to_Inr:
  "slice_to xs n = Inr ys \<Longrightarrow> ys = take (nat n) xs \<and> 0 \<le> n \<and> length ys = nat n"
  by (auto simp: slice_to_def split: if_splits)

lemma percentage_positive:
  fixes deleted :: int
  assumes "ExpiredKeysPercentageTolerance < deleted * 100 div int n"
  shows "0 < deleted"
proof (rule ccontr)
  assume "\<not> 0 < deleted"
  then have "deleted * 100 \<le> 0" by simp
  then have "deleted * 100 div int n \<le> 0"
    by (cases "n = 0") (simp_all add: div_nonpos_pos_le0)
  with assms show False by (simp add: ExpiredKeysPercentageTolerance_def)
qed

lemma defaultClean_returns:
  assumes "table_inv m"
  shows "\<exists>r. defaultClean Perm now call m conf = Some r \<and> r \<noteq> Inl IntegerDivideByZero
     \<and> (\<forall>m'. r = Inr m' \<longrightarrow>
           table_inv m' \<and> hash m' = hash m
           \<and> set (HashMap_GetAll m') \<subseteq> set (HashMap_GetAll m)
           \<and> live_entries now (HashMap_GetAll m') = live_entries now (HashMap_GetAll m))
     \<and> (Perm_ok Perm \<and> 0 \<le> KeysAmountByCycle conf \<longrightarrow> (\<exists>m'. r = Inr m'))"
  using assms
proof (induction "length (HashMap_GetAll m)" arbitrary: m call rule: less_induct)
  case less
  let ?es = "HashMap_GetAll m"
  let ?n = "min (KeysAmountByCycle conf) (int (length ?es))"
  show ?case
  proof (cases "?n = 0")
    case True
    then have "defaultClean Perm now call m conf = Some (Inr m)"
      by (subst defaultClean.simps) (simp add: Let_def)
    with less.prems show ?thesis by simp
  next
    case n0: False
    show ?thesis
    proof (cases "slice_to (Perm call (length ?es)) ?n")
      case (Inl p)
      with n0 have run: "defaultClean Perm now call m conf = Some (Inl p)"
        by (subst defaultClean.simps) (simp add: Let_def)
      from Inl have p: "p = SliceBoundsOutOfRange"
        by (rule slice_to_Inl)
      have "\<not> (Perm_ok Perm \<and> 0 \<le> KeysAmountByCycle conf)"
      proof
        assume "Perm_ok Perm \<and> 0 \<le> KeysAmountByCycle conf"
        then have "length (Perm call (length ?es)) = length ?es" "0 \<le> ?n"
          by (simp_all add: Perm_ok_length)
        with Inl show False
          by (simp add: slice_to_def split: if_splits)
      qed
      with run p show ?thesis by simp
    next
      case (Inr idx)
      from slice_to_Inr [OF Inr] n0 have idx: "idx = take (nat ?n) (Perm call (length ?es))"
        "length idx \<noteq> 0" by auto
      show ?thesis
      proof (cases "clean_loop ?es now idx m 0")
        case (Inl p)
        with Inr n0 have run: "defaultClean Perm now call m conf = Some (Inl p)"
          by (subst defaultClean.simps) (simp add: Let_def)
        from Inl have p: "p = IndexOutOfRange"
          by (rule clean_loop_Inl)
        have "\<not> Perm_ok Perm"
        proof
          assume "Perm_ok Perm"
          then have "\<forall>i \<in> set idx. i < length ?es"
            unfolding idx using Perm_ok_range in_set_takeD by metis
          from clean_loop_in_range [OF this, of now m 0] Inl show False by auto
        qed
        with run p show ?thesis by simp
      next
        case loop: (Inr res)
        obtain m1 deleted where res: "res = (m1, deleted)"
          by (cases res)
        note loop = loop [unfolded res]
        from clean_loop_Inr [OF loop]
        have m1: "hash m1 = hash m" "set (HashMap_GetAll m1) \<subseteq> set ?es"
          "length (HashMap_GetAll m1) \<le> length ?es" "0 \<le> deleted"
          by simp_all
        have inv1: "table_inv m1"
          using less.prems loop by (rule clean_loop_inv)
        have hashes: "\<forall>v \<in> set ?es. HashKey v = Sum64 m (Key v)"
          using table_inv_mem [OF less.prems] by blast
        have live1: "live_entries now (HashMap_GetAll m1) = live_entries now ?es"
          using less.prems distinct_HashKey_GetAll [OF less.prems] _ hashes loop
          by (rule clean_loop_live) simp
        show ?thesis
        proof (cases "ExpiredKeysPercentageTolerance < deleted * 100 div int (length idx)")
          case True
          with Inr loop n0 idx(2)
          have run: "defaultClean Perm now call m conf = defaultClean Perm now (Suc call) m1 conf"
            by (subst defaultClean.simps) (simp add: Let_def)
          from True have "0 < deleted"
            by (rule percentage_positive)
          with less.prems loop have "length (HashMap_GetAll m1) < length ?es"
            by (intro clean_loop_shrinks [of m ?es now idx 0 m1 deleted]) simp_all
          from less.hyps [OF this inv1, of "Suc call"] obtain r where
            r: "defaultClean Perm now (Suc call) m1 conf = Some r" "r \<noteq> Inl IntegerDivideByZero"
              "\<forall>m'. r = Inr m' \<longrightarrow>
                 table_inv m' \<and> hash m' = hash m1
                 \<and> set (HashMap_GetAll m') \<subseteq> set (HashMap_GetAll m1)
                 \<and> live_entries now (HashMap_GetAll m') = live_entries now (HashMap_GetAll m1)"
              "Perm_ok Perm \<and> 0 \<le> KeysAmountByCycle conf \<longrightarrow> (\<exists>m'. r = Inr m')"
            by blast
          from r(3) m1 live1 have
            "\<forall>m'. r = Inr m' \<longrightarrow>
                 table_inv m' \<and> hash m' = hash m
                 \<and> set (HashMap_GetAll m') \<subseteq> set ?es
                 \<and> live_entries now (HashMap_GetAll m') = live_entries now ?es"
            by auto
          with run r(1,2,4) show ?thesis by simp
        next
          case False
          with Inr loop n0 idx(2)
          have "defaultClean Perm now call m conf = Some (Inr m1)"
            by (subst defaultClean.simps) (simp add: Let_def)
          with m1 inv1 live1 show ?thesis by simp
        qed
      qed
    qed
  qed
qed




section \<open>Facts about the cache\<close>

lemma epoch_sum_nonzero:
  fixes now d :: "64 word"
  assumes "0 \<le>s now" "0 <s d"
  shows "now + d \<noteq> 0"
proof
  assume z: "now + d = 0"
  have b: "0 \<le> sint now" "0 < sint d"
    using assms by (simp_all add: word_sle_eq word_sless_alt)
  have u: "sint now < 2 ^ 63" "sint d < 2 ^ 63"
    using sint_lt [of now] sint_lt [of d] by simp_all
  have "word_of_int (sint now + sint d) = (0 :: 64 word)"
    using z by simp
  then have "(2::int) ^ LENGTH(64) dvd sint now + sint d"
    by (rule word_of_int_eq_0_iff [THEN iffD1])
  then have "(2::int) ^ 64 \<le> sint now + sint d"
    using b by (intro zdvd_imp_le) simp_all
  with u show False by simp
qed

lemma positive_not_negative:
  fixes d :: "64 word"
  shows "0 <s d \<Longrightarrow> \<not> d <s 0"
  by (simp add: word_sless_alt)

lemma HashMap_Get_Set_positive:
  assumes "0 <s ttl"
  shows "HashMap_Get (entries (ActiveCache_Set c (Some k) v ttl now)) (Some k) =
         Some \<lparr>Value = v, Ttl = ttl, ExpiresAt = now + ttl\<rparr>"
  using assms positive_not_negative [OF assms]
  by (simp add: ActiveCache_Set_def NoExpiration_def HashMap_Get_Put_same)

lemma table_inv_Set:
  "table_inv (entries c) \<Longrightarrow> table_inv (entries (ActiveCache_Set c k v ttl now))"
  by (simp add: ActiveCache_Set_def Let_def table_inv_Put table_inv_Delete)

lemma table_inv_New: "table_inv (entries (NewActiveCacheWithConfig h conf))"
  by (simp add: NewActiveCacheWithConfig_def table_inv_zero)

lemma cache_inv_iff:
  "cache_inv c \<longleftrightarrow> (\<forall>v \<in> set (HashMap_GetAll (entries c)). entry_inv (EValue v))"
  by (simp add: cache_inv_def list_all_iff)

lemma GetAll_zero: "HashMap_GetAll (HashMap_zero h) = []"
  by (simp add: HashMap_GetAll_def HashMap_zero_def)

lemma cache_inv_New: "cache_inv (NewActiveCacheWithConfig h conf)"
  by (simp add: cache_inv_def NewActiveCacheWithConfig_def GetAll_zero)

lemma cache_inv_Set:
  assumes "cache_inv c" "0 \<le>s now"
  shows "cache_inv (ActiveCache_Set c k v ttl now)"
proof (cases "k = None \<or> ttl <s NoExpiration")
  case True
  then show ?thesis
    using assms(1) set_GetAll_Delete [of "entries c" k]
    by (auto simp: ActiveCache_Set_def cache_inv_iff)
next
  case False
  let ?e = "\<lparr>Value = v, Ttl = ttl, ExpiresAt = (if NoExpiration <s ttl then now + ttl else 0)\<rparr>"
  from False have set: "entries (ActiveCache_Set c k v ttl now) = HashMap_Put (entries c) k ?e"
    by (simp add: ActiveCache_Set_def)
  have "entry_inv ?e"
  proof (cases "NoExpiration <s ttl")
    case True
    then have "now + ttl \<noteq> 0" "ttl \<noteq> 0"
      using epoch_sum_nonzero [OF assms(2), of ttl] by (auto simp: NoExpiration_def)
    with True show ?thesis
      by (simp add: entry_inv_def NoExpiration_def)
  next
    case F: False
    with False have "ttl = 0"
      by (simp add: NoExpiration_def word_sless_alt signed_eq_0_iff)
    with F show ?thesis
      by (simp add: entry_inv_def NoExpiration_def)
  qed
  have "entry_inv (EValue w)" if "w \<in> set (HashMap_GetAll (HashMap_Put (entries c) k ?e))" for w
    using mem_GetAll_Put [OF that] assms(1) \<open>entry_inv ?e\<close>
    by (auto simp: cache_inv_iff)
  then show ?thesis
    unfolding cache_inv_iff set by blast
qed

lemma Get_Set_negative:
  assumes "ttl <s NoExpiration" "table_inv (entries c)"
  shows "ActiveCache_Get (ActiveCache_Set c (Some k) v ttl now) (Some k) now' = (None, 0)"
  using assms
  by (simp add: ActiveCache_Get_def ActiveCache_Set_def HashMap_Get_Delete_same emptyValueTTL_def)

lemma Get_Set_negative_other:
  assumes "ttl <s NoExpiration" "Sum64 (entries c) k' \<noteq> Sum64 (entries c) k"
  shows "ActiveCache_Get (ActiveCache_Set c k v ttl now) k' now' = ActiveCache_Get c k' now'"
  using assms
  by (simp add: ActiveCache_Get_def ActiveCache_Set_def HashMap_Get_Delete_other)

lemma colliding_keys_alias:
  "\<exists>k1 k2. k1 \<noteq> k2 \<and>
     HashMap_Get (HashMap_Put (HashMap_Put h (Some k1) x1) (Some k2) x2) (Some k1) = Some x2"
proof -
  from hash_collision_exists [of "hash h"] obtain k1 k2 where "k1 \<noteq> k2" "hash h k1 = hash h k2"
    by blast
  then have "Sum64 h (Some k1) = Sum64 h (Some k2)"
    by (simp add: Sum64_def key_bytes_def)
  from HashMap_Get_Put_collision [OF this, of x1 x2] \<open>k1 \<noteq> k2\<close> show ?thesis
    by (intro exI conjI)
qed

lemma cleaner_loop_disarmed:
  "\<not> timerArmed c \<Longrightarrow> isCleanerRunning c \<Longrightarrow>
   cleaner_loop cleanFunc (replicate n IntervalElapsed) c = c"
  by (induction n) simp_all

section \<open>Concrete evaluations\<close>


lemma GetAll_buckets:
  "HashMap_GetAll h = data h 0 @ data h 1 @ data h 2 @ data h 3 @ data h 4 @ data h 5
     @ data h 6 @ data h 7 @ data h 8 @ data h 9"
  by (simp add: HashMap_GetAll_def DefaultTableSize_def upt_rec [of _ "numeral _"]
      upt_rec [of _ "Suc _"] eval_nat_numeral)

lemmas table_eval = ActiveCache_Set_def NewActiveCacheWithConfig_def NewActiveCache_def
  validateAndAdjustConfig_def DefaultConfig_def
  HashMap_zero_def HashMap_Put_def HashMap_Delete_def HashMap_Get_def Sum64_def key_bytes_def
  byte_sum_def bucket_index_def DefaultTableSize_def NoExpiration_def Let_def
  MinCleanerInterval_def MinKeysAmountByCycle_def word_sless_alt word_sle_eq

lemma sample_cache_table_inv: "table_inv (entries sample_cache)"
  by (simp add: sample_cache_def table_inv_Set table_inv_New)

lemma sample_cache_entries:
  "HashMap_GetAll (entries sample_cache) =
   [\<lparr>HashKey = 0, Key = Some [0], EValue = \<lparr>Value = Some [0], Ttl = 1, ExpiresAt = 11\<rparr>\<rparr>,
    \<lparr>HashKey = 1, Key = Some [1], EValue = \<lparr>Value = Some [1], Ttl = 1, ExpiresAt = 11\<rparr>\<rparr>,
    \<lparr>HashKey = 2, Key = Some [2], EValue = \<lparr>Value = Some [2], Ttl = 0, ExpiresAt = 0\<rparr>\<rparr>,
    \<lparr>HashKey = 3, Key = Some [3], EValue = \<lparr>Value = Some [3], Ttl = 0, ExpiresAt = 0\<rparr>\<rparr>,
    \<lparr>HashKey = 4, Key = Some [4], EValue = \<lparr>Value = Some [4], Ttl = 0, ExpiresAt = 0\<rparr>\<rparr>,
    \<lparr>HashKey = 5, Key = Some [5], EValue = \<lparr>Value = Some [5], Ttl = 0, ExpiresAt = 0\<rparr>\<rparr>,
    \<lparr>HashKey = 6, Key = Some [6], EValue = \<lparr>Value = Some [6], Ttl = 0, ExpiresAt = 0\<rparr>\<rparr>,
    \<lparr>HashKey = 7, Key = Some [7], EValue = \<lparr>Value = Some [7], Ttl = 1, ExpiresAt = 11\<rparr>\<rparr>]"
  by (simp add: sample_cache_def table_eval GetAll_buckets)


lemma sample_cache_inv: "cache_inv sample_cache"
  by (simp add: cache_inv_def sample_cache_entries entry_inv_def NoExpiration_def)

section \<open>The claims\<close>

text \<open>
  C1. Distinct keys do alias when their hashes are equal. \<open>Put\<close>, \<open>Get\<close> and \<open>Delete\<close>
  compare the stored \<open>HashKey\<close> only, never the key bytes. With the seed \<open>byte_sum\<close> the
  keys \<open>[1, 2]\<close> and \<open>[2, 1]\<close> have the same sum: putting the second overwrites the record
  of the first (one record is left, under the first key and with the second value),
  getting the second returns the value of the first, and deleting the second removes the
  record of the first. The interface documents \<open>Get\<close> as returning the value stored using
  the key and nil when the key is not present. Lemma \<open>colliding_keys_alias\<close> shows that
  such a pair of keys exists for every seed.
\<close>

theorem C1_colliding_keys_alias:
  "byte_sum [1, 2] = byte_sum [2, 1]
   \<and> HashMap_Get (HashMap_Put (HashMap_Put (HashMap_zero byte_sum) (Some [1, 2]) (10::nat))
         (Some [2, 1]) 20) (Some [1, 2]) = Some 20
   \<and> HashMap_GetAll (HashMap_Put (HashMap_Put (HashMap_zero byte_sum) (Some [1, 2]) (10::nat))
         (Some [2, 1]) 20) = [\<lparr>HashKey = 3, Key = Some [1, 2], EValue = 20\<rparr>]
   \<and> HashMap_Get (HashMap_Put (HashMap_zero byte_sum) (Some [1, 2]) (10::nat)) (Some [2, 1]) =
       Some 10
   \<and> HashMap_GetAll (HashMap_Delete (HashMap_Put (HashMap_zero byte_sum) (Some [1, 2]) (10::nat))
         (Some [2, 1])) = []"
  by (simp add: table_eval GetAll_buckets)

text \<open>
  C2. Round trip with no expiration: for a non-nil key \<open>Some k\<close> and a non-nil value
  \<open>Some v\<close>, \<open>Set(key, value, 0)\<close> followed immediately by \<open>Get(key)\<close> returns \<open>(value, 0)\<close>,
  whatever the cache held before and whatever the clock reads at the two calls.
\<close>

theorem C2_round_trip_no_expiration:
  "ActiveCache_Get (ActiveCache_Set c (Some k) (Some v) 0 now) (Some k) now' = (Some v, 0)"
  by (simp add: ActiveCache_Get_def ActiveCache_Set_def NoExpiration_def HashMap_Get_Put_same
      GetValueTTL_def IsExpired_def)

text \<open>
  C3. Expiry boundary and lazy expiration. \<open>Set(key, value, d)\<close> with \<open>d > 0\<close> at a clock
  reading \<open>now0\<close> not before the Unix epoch stores \<open>expiresAt = now0 + d\<close>. A \<open>Get(key)\<close>
  at a reading \<open>now < expiresAt\<close> returns \<open>(value, d)\<close>, and one at \<open>now \<ge> expiresAt\<close>
  returns \<open>(nil, 0)\<close> although the entry is still in the table: no cleaner has run between
  the two calls. An entry whose \<open>expiresAt\<close> is \<open>NoExpiration\<close> is expired at no reading.
\<close>

theorem C3_expiry_boundary:
  assumes "0 \<le>s now0" and "0 <s d"
  shows "HashMap_Get (entries (ActiveCache_Set c (Some k) v d now0)) (Some k) =
           Some \<lparr>Value = v, Ttl = d, ExpiresAt = now0 + d\<rparr>
     \<and> (now <s now0 + d \<longrightarrow>
          ActiveCache_Get (ActiveCache_Set c (Some k) v d now0) (Some k) now = (v, d))
     \<and> (now0 + d \<le>s now \<longrightarrow>
          ActiveCache_Get (ActiveCache_Set c (Some k) v d now0) (Some k) now = (None, 0))
     \<and> (ExpiresAt e = NoExpiration \<longrightarrow> \<not> IsExpired e now)"
proof -
  have stored: "HashMap_Get (entries (ActiveCache_Set c (Some k) v d now0)) (Some k) =
      Some \<lparr>Value = v, Ttl = d, ExpiresAt = now0 + d\<rparr>"
    using assms(2) by (rule HashMap_Get_Set_positive)
  have nz: "now0 + d \<noteq> 0"
    using assms by (rule epoch_sum_nonzero)
  have "ActiveCache_Get (ActiveCache_Set c (Some k) v d now0) (Some k) now = (v, d)"
    if "now <s now0 + d"
    using that by (auto simp: ActiveCache_Get_def stored GetValueTTL_def IsExpired_def)
  moreover have "ActiveCache_Get (ActiveCache_Set c (Some k) v d now0) (Some k) now = (None, 0)"
    if "now0 + d \<le>s now"
    using that nz
    by (simp add: ActiveCache_Get_def stored GetValueTTL_def IsExpired_def NoExpiration_def
        emptyValueTTL_def)
  moreover have "\<not> IsExpired e now" if "ExpiresAt e = NoExpiration"
    using that by (simp add: IsExpired_def)
  ultimately show ?thesis
    using stored by blast
qed

text \<open>
  The theorem at a cache that is new, a duration of 5 and a \<open>Set\<close> at reading 10: the
  entry is returned at reading 14 and not at reading 15.
\<close>

theorem C3_expiry_boundary_witness:
  "ActiveCache_Get (ActiveCache_Set (NewActiveCache byte_sum) (Some [1]) (Some [2]) 5 10)
     (Some [1]) 14 = (Some [2], 5)
   \<and> ActiveCache_Get (ActiveCache_Set (NewActiveCache byte_sum) (Some [1]) (Some [2]) 5 10)
     (Some [1]) 15 = (None, 0)
   \<and> \<not> IsExpired \<lparr>Value = Some [2], Ttl = 0, ExpiresAt = 0\<rparr> 15"
  using C3_expiry_boundary [where ?now0.0 = 10 and d = 5 and c = "NewActiveCache byte_sum"
      and k = "[1]" and v = "Some [2]" and now = 14
      and e = "\<lparr>Value = Some [2], Ttl = 0, ExpiresAt = 0\<rparr>"]
    C3_expiry_boundary [where ?now0.0 = 10 and d = 5 and c = "NewActiveCache byte_sum"
      and k = "[1]" and v = "Some [2]" and now = 15
      and e = "\<lparr>Value = Some [2], Ttl = 0, ExpiresAt = 0\<rparr>"]
  by (simp add: word_sless_alt word_sle_eq NoExpiration_def)




text \<open>
  C5. The cleaner does not clean on every interval. The timer is created once, by
  \<^verbatim>\<open>time.NewTimer\<close>, and never reset, so the \<^verbatim>\<open>select\<close> receives from it one single
  time: however many intervals elapse without a stop signal, \<open>cleanFunc\<close> is called once
  (and not at all before the first interval has elapsed). After three intervals it has
  been called once, not three times. The configuration documents \<open>CleanerInterval\<close> as the
  interval at which the cleaner will run.
\<close>

theorem C5_cleaner_cleans_once:
  "cleaned (cleaner_loop count_clean (replicate n IntervalElapsed)
      (StartCleaner \<lparr>isCleanerRunning = False, timerArmed = False, cleaned = 0\<rparr>)) = min n 1
   \<and> cleaned (cleaner_loop count_clean [IntervalElapsed, IntervalElapsed, IntervalElapsed]
      (StartCleaner \<lparr>isCleanerRunning = False, timerArmed = False, cleaned = 0\<rparr>)) = 1"
proof -
  have "cleaned (cleaner_loop count_clean (replicate n IntervalElapsed)
      (StartCleaner \<lparr>isCleanerRunning = False, timerArmed = False, cleaned = 0\<rparr>)) = min n 1"
    by (cases n) (simp_all add: StartCleaner_def count_clean_def cleaner_loop_disarmed)
  then show ?thesis
    by (simp add: StartCleaner_def count_clean_def)
qed

text \<open>
  C6. A \<open>Set\<close> with a negative duration removes the entry of another key when the two keys
  have the same hash, since \<open>Delete\<close> compares the stored \<open>HashKey\<close> only. With the seed
  \<open>byte_sum\<close>: after \<open>Set([1, 2], [7], 0)\<close> a \<open>Get([1, 2])\<close> returns \<open>([7], 0)\<close>; after a
  further \<open>Set([2, 1], [8], -1)\<close> it returns \<open>(nil, 0)\<close>. The rest of the claim holds on every
  table that satisfies the invariant: lemmas \<open>Get_Set_negative\<close> (the key itself is no
  longer found) and \<open>Get_Set_negative_other\<close> (keys of a different hash are untouched).
\<close>

theorem C6_negative_ttl_removes_colliding_key:
  "ActiveCache_Get
     (ActiveCache_Set (NewActiveCache byte_sum) (Some [1, 2]) (Some [7]) 0 10)
     (Some [1, 2]) 20 = (Some [7], 0)
   \<and> ActiveCache_Get
     (ActiveCache_Set (ActiveCache_Set (NewActiveCache byte_sum) (Some [1, 2]) (Some [7]) 0 10)
        (Some [2, 1]) (Some [8]) (- 1) 10)
     (Some [1, 2]) 20 = (None, 0)"
  by (simp add: ActiveCache_Get_def GetValueTTL_def IsExpired_def emptyValueTTL_def table_eval)

text \<open>
  C7. Nil key: \<open>Set(nil, value, ttl)\<close> returns the cache unchanged for every value, ttl and
  clock reading, so the nil key is not retrievable after it, and \<open>Get(nil)\<close> returns
  \<open>(nil, 0)\<close> in every cache state.
\<close>

theorem C7_nil_key:
  "ActiveCache_Set c None v ttl now = c
   \<and> ActiveCache_Get c None now' = (None, 0)
   \<and> ActiveCache_Get (ActiveCache_Set c None v ttl now) None now' = (None, 0)"
  by (simp add: ActiveCache_Set_def ActiveCache_Get_def emptyValueTTL_def)

text \<open>
  C8. Expiration-sentinel invariant. \<open>cache_inv\<close> says that every entry of the table has
  \<open>expiresAt = NoExpiration\<close> exactly when \<open>ttl = NoExpiration\<close>. It holds in a new cache; every
  \<open>Set\<close> at a clock reading not before the Unix epoch preserves it; a \<open>Set\<close> with \<open>ttl > 0\<close>
  stores \<open>expiresAt = now + ttl\<close> (in \<^verbatim>\<open>int64\<close> arithmetic); and a run of the sampler on a
  table that satisfies the table invariant returns and preserves it. \<open>Get\<close> only reads: in
  the model it has no cache among its results, and nothing but \<open>Set\<close> writes an entry, so
  the instant is never computed again.
\<close>

theorem C8_expiration_sentinel_invariant:
  "cache_inv (NewActiveCacheWithConfig h conf)
   \<and> (cache_inv c \<and> 0 \<le>s now \<longrightarrow> cache_inv (ActiveCache_Set c k v ttl now))
   \<and> (0 <s ttl \<longrightarrow>
        HashMap_Get (entries (ActiveCache_Set c (Some key) v ttl now)) (Some key) =
          Some \<lparr>Value = v, Ttl = ttl, ExpiresAt = now + ttl\<rparr>)
   \<and> (cache_inv c \<and> table_inv (entries c) \<longrightarrow>
        (\<exists>r. performClean Perm now c = Some r \<and> (\<forall>c'. r = Inr c' \<longrightarrow> cache_inv c')))"
proof -
  have "\<exists>r. performClean Perm now c = Some r \<and> (\<forall>c'. r = Inr c' \<longrightarrow> cache_inv c')"
    if inv: "cache_inv c" "table_inv (entries c)"
  proof -
    from defaultClean_returns [OF inv(2), of Perm now 0 "config c"] obtain r where
      r: "defaultClean Perm now 0 (entries c) (config c) = Some r"
        "\<forall>m'. r = Inr m' \<longrightarrow> set (HashMap_GetAll m') \<subseteq> set (HashMap_GetAll (entries c))"
      by blast
    have "cache_inv c'" if "map_sum id (\<lambda>m. c\<lparr>entries := m\<rparr>) r = Inr c'" for c'
    proof -
      from that obtain m' where m': "r = Inr m'" "c' = c\<lparr>entries := m'\<rparr>"
        by (cases r) auto
      with r(2) inv(1) show ?thesis
        by (auto simp: cache_inv_iff)
    qed
    with r(1) show ?thesis
      by (simp add: performClean_def)
  qed
  then show ?thesis
    using cache_inv_New cache_inv_Set HashMap_Get_Set_positive by blast
qed

text \<open>The theorem at \<open>sample_cache\<close>, a \<open>Set\<close> of a new key with duration 5 at reading 10.\<close>

theorem C8_expiration_sentinel_invariant_witness:
  "cache_inv (ActiveCache_Set sample_cache (Some [9]) (Some [1]) 5 10)
   \<and> HashMap_Get (entries (ActiveCache_Set sample_cache (Some [9]) (Some [1]) 5 10)) (Some [9]) =
        Some \<lparr>Value = Some [1], Ttl = 5, ExpiresAt = 15\<rparr>
   \<and> (\<exists>r. performClean identity_Perm 100 sample_cache = Some r
          \<and> (\<forall>c'. r = Inr c' \<longrightarrow> cache_inv c'))"
  using C8_expiration_sentinel_invariant [of byte_sum None sample_cache 10 "Some [9]" "Some [1]" 5
      "[9]" identity_Perm]
    C8_expiration_sentinel_invariant [of byte_sum None sample_cache 100 "Some [9]" "Some [1]" 5
      "[9]" identity_Perm]
    sample_cache_inv sample_cache_table_inv
  by (simp add: word_sless_alt word_sle_eq)

text \<open>
  C9. Configuration clamping: the two fields are adjusted independently of each other. An
  interval below \<open>MinCleanerInterval = 50\<close> becomes \<open>DefaultCleanerInterval = 200\<close>, an
  amount below \<open>MinKeysAmountByCycle = 5\<close> becomes \<open>DefaultKeysAmountByCycle = 20\<close>, every
  other value is kept, and the constructor installs the adjusted configuration: it has no
  error result, whatever the configuration.
\<close>

theorem C9_config_clamping:
  "CleanerInterval (validateAndAdjustConfig conf) =
     (if CleanerInterval conf < 50 then 200 else CleanerInterval conf)
   \<and> KeysAmountByCycle (validateAndAdjustConfig conf) =
     (if KeysAmountByCycle conf < 5 then 20 else KeysAmountByCycle conf)
   \<and> config (NewActiveCacheWithConfig h (Some conf)) = validateAndAdjustConfig conf"
  by (simp add: validateAndAdjustConfig_def NewActiveCacheWithConfig_def Let_def
      MinCleanerInterval_def DefaultCleanerInterval_def MinKeysAmountByCycle_def
      DefaultKeysAmountByCycle_def)

text \<open>The theorem at the values 0 and 1, at the two minima, and at one field below only.\<close>

theorem C9_config_clamping_witness:
  "config (NewActiveCacheWithConfig byte_sum (Some \<lparr>CleanerInterval = 0, KeysAmountByCycle = 1\<rparr>)) =
     \<lparr>CleanerInterval = 200, KeysAmountByCycle = 20\<rparr>
   \<and> config (NewActiveCacheWithConfig byte_sum (Some \<lparr>CleanerInterval = 50, KeysAmountByCycle = 5\<rparr>)) =
     \<lparr>CleanerInterval = 50, KeysAmountByCycle = 5\<rparr>
   \<and> config (NewActiveCacheWithConfig byte_sum (Some \<lparr>CleanerInterval = 0, KeysAmountByCycle = 7\<rparr>)) =
     \<lparr>CleanerInterval = 200, KeysAmountByCycle = 7\<rparr>"
  using C9_config_clamping [of "\<lparr>CleanerInterval = 0, KeysAmountByCycle = 1\<rparr>" byte_sum]
    C9_config_clamping [of "\<lparr>CleanerInterval = 50, KeysAmountByCycle = 5\<rparr>" byte_sum]
    C9_config_clamping [of "\<lparr>CleanerInterval = 0, KeysAmountByCycle = 7\<rparr>" byte_sum]
  by (simp add: Config.equality)



end
